theory Spec2Isabelle
  imports Main "HOL-Library.Multiset"
begin

section \<open>The line-count report of \<open>count_lines.py\<close>\<close>

text \<open>
  The script walks the working directory, keeps the regular files whose suffix is in
  \<open>EXTENSIONS\<close> and whose path has no component in \<open>IGNORE_DIRS\<close>, counts the lines of
  each, sorts the files by descending count, adds the counts up per parent directory and
  prints both tables and a grand total.

  The model takes the result of the walk (\<open>root.rglob('*')\<close>) as a list of entries, in
  whatever order the walk gives them. Python's \<open>int\<close> is \<open>int\<close>, \<open>str\<close> is \<open>string\<close>, the
  list \<open>files\<close> of pairs is a list of pairs, and the \<open>defaultdict\<close> \<open>dir_totals\<close> is an
  association list in insertion order with unique keys, which is what a Python dict is
  when it is iterated.
\<close>

subsection \<open>The constants\<close>

definition EXTENSIONS :: "string set" where
  "EXTENSIONS = {''.svelte'', ''.ts'', ''.rs'', ''.js'', ''.css'', ''.html'', ''.json''}"

definition IGNORE_DIRS :: "string set" where
  "IGNORE_DIRS = {''node_modules'', ''target'', ''dist'', ''.svelte-kit'', ''.git'', ''build''}"

subsection \<open>Reading a file: \<open>count_lines\<close>\<close>

text \<open>
  What \<open>open\<close> and the iteration over the file give: either an exception (the file cannot
  be opened, or a read fails part way), or the decoded text. With \<open>errors='ignore'\<close> the
  decoder never raises, so there is no decoding error. The text is a list of characters;
  only \<open>\n\<close> and \<open>\r\<close> matter to the count, so the characters beyond ASCII are not
  told apart from the bytes that encode them.
\<close>

datatype py_error = PermissionError | FileNotFoundError | OSError

type_synonym file_read = "py_error + string"

definition LF :: char where
  "LF = CHR 0x0A"

definition CR :: char where
  "CR = CHR 0x0D"

text \<open>
  Iterating over a file opened in text mode with the default \<open>newline=None\<close>: a line ends
  at \<open>\n\<close>, at \<open>\r\<close> or at \<open>\r\n\<close>, each handed over as \<open>\n\<close>, and whatever is left after
  the last terminator is a last line when it is not empty. \<open>cur\<close> is the line being read
  and \<open>pendingcr\<close> says that the previous character was \<open>\r\<close>, so that a \<open>\n\<close> right
  after it belongs to the same terminator.
\<close>

fun readlines :: "string \<Rightarrow> bool \<Rightarrow> string \<Rightarrow> string list" where
  "readlines cur pendingcr [] = (if cur = [] then [] else [cur])"
| "readlines cur pendingcr (c # cs) =
     (if pendingcr \<and> c = LF then readlines cur False cs
      else if c = LF then (cur @ [LF]) # readlines [] False cs
      else if c = CR then (cur @ [LF]) # readlines [] True cs
      else readlines (cur @ [c]) False cs)"

text \<open>The body of the \<open>try\<close>: \<open>sum(1 for _ in f)\<close>, or the exception.\<close>

definition count_lines_try :: "file_read \<Rightarrow> py_error + int" where
  "count_lines_try r =
     (case r of
        Inl err \<Rightarrow> Inl err
      | Inr text \<Rightarrow> Inr (int (length (readlines [] False text))))"

text \<open>The bare \<open>except\<close> turns every exception into 0.\<close>

definition count_lines :: "file_read \<Rightarrow> int" where
  "count_lines r = (case count_lines_try r of Inl err \<Rightarrow> 0 | Inr n \<Rightarrow> n)"

text \<open>
  The number of line terminators of a text, counted on the text itself: this is the
  "number of line-terminated segments" of the specification, against which
  \<open>count_lines\<close> is compared.
\<close>

fun line_terminated_segments :: "bool \<Rightarrow> string \<Rightarrow> nat" where
  "line_terminated_segments pendingcr [] = 0"
| "line_terminated_segments pendingcr (c # cs) =
     (if pendingcr \<and> c = LF then line_terminated_segments False cs
      else if c = LF then Suc (line_terminated_segments False cs)
      else if c = CR then Suc (line_terminated_segments True cs)
      else line_terminated_segments False cs)"

subsection \<open>Paths\<close>

text \<open>
  \<open>str.rfind\<close> for a single character: the highest index where it occurs, or \<open>-1\<close>.
\<close>

fun rfind_from :: "char \<Rightarrow> int \<Rightarrow> int \<Rightarrow> string \<Rightarrow> int" where
  "rfind_from ch i found [] = found"
| "rfind_from ch i found (c # cs) = rfind_from ch (i + 1) (if c = ch then i else found) cs"

definition rfind :: "string \<Rightarrow> char \<Rightarrow> int" where
  "rfind s ch = rfind_from ch 0 (- 1) s"

text \<open>
  \<open>PurePath.name\<close> of a relative path is its last component, or the empty string, and
  \<open>PurePath.suffix\<close> is (in \<open>pathlib\<close> up to Python 3.13)
  \<^verbatim>\<open>
  i = name.rfind('.')
  if 0 < i < len(name) - 1: return name[i:]
  else: return ''
  \<close>
\<close>

definition path_name :: "string list \<Rightarrow> string" where
  "path_name ps = (if ps = [] then [] else last ps)"

definition path_suffix :: "string list \<Rightarrow> string" where
  "path_suffix ps =
     (let name = path_name ps; i = rfind name (CHR ''.'')
      in if 0 < i \<and> i < int (length name) - 1 then drop (nat i) name else [])"

text \<open>\<open>sep.join(parts)\<close>.\<close>

fun join :: "string \<Rightarrow> string list \<Rightarrow> string" where
  "join sep [] = []"
| "join sep [p] = p"
| "join sep (p # q # ps) = p @ sep @ join sep (q # ps)"

text \<open>
  \<open>str(path)\<close> of a path that the walk yields. The walk starts at \<open>Path('.')\<close>, so its
  paths are relative and \<open>path.parts\<close> are the components below the root.
\<close>

definition py_str :: "string list \<Rightarrow> string" where
  "py_str ps = (if ps = [] then ''.'' else join ''/'' ps)"

text \<open>\<open>str.split(sep)\<close> for a single character.\<close>

fun split_from :: "char \<Rightarrow> string \<Rightarrow> string \<Rightarrow> string list" where
  "split_from sep cur [] = [cur]"
| "split_from sep cur (c # cs) =
     (if c = sep then cur # split_from sep [] cs else split_from sep (cur @ [c]) cs)"

definition split :: "string \<Rightarrow> char \<Rightarrow> string list" where
  "split s sep = split_from sep [] s"

text \<open>
  \<open>Path(path)\<close> on a POSIX system parses the string again: one leading slash or three
  and more are the root \<open>/\<close>, exactly two are the root \<open>//\<close>, and the rest is split at
  the slashes, dropping the empty components and the components \<open>.\<close>.
\<close>

record pure_path =
  root :: string
  comps :: "string list"

definition splitroot :: "string \<Rightarrow> string \<times> string" where
  "splitroot part =
     (if part \<noteq> [] \<and> hd part = CHR ''/'' then
        (let stripped = dropWhile (\<lambda>c. c = CHR ''/'') part
         in if length part - length stripped = 2 then (''//'', stripped) else (''/'', stripped))
      else ([], part))"

definition Path :: "string \<Rightarrow> pure_path" where
  "Path s =
     (let (rt, rel) = splitroot s
      in \<lparr>root = rt, comps = filter (\<lambda>x. x \<noteq> [] \<and> x \<noteq> ''.'') (split rel (CHR ''/''))\<rparr>)"

text \<open>\<open>PurePath.parent\<close> drops the last component; the parent of a bare root is itself.\<close>

definition parent :: "pure_path \<Rightarrow> pure_path" where
  "parent p = p\<lparr>comps := butlast (comps p)\<rparr>"

text \<open>\<open>str\<close> of a parsed path: root and joined components, and \<open>.\<close> when both are empty.\<close>

definition str_path :: "pure_path \<Rightarrow> string" where
  "str_path p =
     (let s = root p @ join ''/'' (comps p) in if s = [] then ''.'' else s)"

text \<open>\<open>dir_name = str(Path(path).parent)\<close>.\<close>

definition dir_name :: "string \<Rightarrow> string" where
  "dir_name path = str_path (parent (Path path))"

subsection \<open>The scan\<close>

text \<open>
  One entry of the walk: the components of its path, whether \<open>is_file()\<close> holds, and what
  opening and reading it gives.
\<close>

record entry =
  parts :: "string list"
  is_file :: bool
  contents :: file_read

text \<open>The loop over \<open>root.rglob('*')\<close>, appending to \<open>files\<close>.\<close>

fun scan_loop :: "(string \<times> int) list \<Rightarrow> entry list \<Rightarrow> (string \<times> int) list" where
  "scan_loop files [] = files"
| "scan_loop files (e # es) =
     (if is_file e \<and> path_suffix (parts e) \<in> EXTENSIONS then
        (if \<exists>d\<in>IGNORE_DIRS. d \<in> set (parts e) then scan_loop files es
         else scan_loop (files @ [(py_str (parts e), count_lines (contents e))]) es)
      else scan_loop files es)"

subsection \<open>The directory totals\<close>

text \<open>
  \<open>dir_totals[dir_name] += lines\<close> on a \<open>defaultdict(int)\<close>: a key that is present keeps
  its place and gets the sum, a new key starts at \<open>0\<close> and goes to the end.
\<close>

fun dict_add :: "(string \<times> int) list \<Rightarrow> string \<Rightarrow> int \<Rightarrow> (string \<times> int) list" where
  "dict_add [] k v = [(k, 0 + v)]"
| "dict_add ((k', t) # rest) k v =
     (if k' = k then (k', t + v) # rest else (k', t) # dict_add rest k v)"

fun dir_totals_loop :: "(string \<times> int) list \<Rightarrow> (string \<times> int) list \<Rightarrow> (string \<times> int) list" where
  "dir_totals_loop dir_totals [] = dir_totals"
| "dir_totals_loop dir_totals ((path, lines) # files) =
     dir_totals_loop (dict_add dir_totals (dir_name path) lines) files"

subsection \<open>The report\<close>

text \<open>
  One constructor for each \<open>print\<close> call of \<open>main\<close>, with the values that its format string
  takes: \<open>Banner\<close> is the line of 60 \<open>=\<close>, \<open>Newline_banner\<close> the same after an empty line,
  \<open>File_row lines path\<close> is \<open>f"{lines:>6} ...  {path}"\<close>, \<open>Dir_row total dir_name\<close> is
  \<open>f"{total:>6} ...  {dir_name}/"\<close> and \<open>Total n\<close> the last line with the grand total.
\<close>

datatype out_line =
    Banner
  | Files_title
  | File_row int string
  | Newline_banner
  | Dirs_title
  | Dir_row int string
  | Total int

text \<open>
  \<open>files.sort(key=lambda x: -x[1])\<close> and \<open>sorted(dir_totals.items(), key=lambda x: -x[1])\<close>
  are stable sorts on the negated count; \<open>sort_key\<close> is the stable insertion sort.
\<close>

definition main :: "entry list \<Rightarrow> out_line list" where
  "main walk =
     (let files = scan_loop [] walk;
          files = sort_key (\<lambda>x. - snd x) files;
          dir_totals = dir_totals_loop [] files
      in [Banner, Files_title, Banner]
         @ map (\<lambda>(path, lines). File_row lines path) files
         @ [Newline_banner, Dirs_title, Banner]
         @ map (\<lambda>(dir_name, total). Dir_row total dir_name) (sort_key (\<lambda>x. - snd x) dir_totals)
         @ [Total (sum_list (map snd files))])"

text \<open>Reading the report back: the file rows, the directory rows and the totals printed.\<close>

fun file_rows :: "out_line list \<Rightarrow> (int \<times> string) list" where
  "file_rows [] = []"
| "file_rows (File_row n p # out) = (n, p) # file_rows out"
| "file_rows (l # out) = file_rows out"

fun dir_rows :: "out_line list \<Rightarrow> (int \<times> string) list" where
  "dir_rows [] = []"
| "dir_rows (Dir_row n d # out) = (n, d) # dir_rows out"
| "dir_rows (l # out) = dir_rows out"

fun totals :: "out_line list \<Rightarrow> int list" where
  "totals [] = []"
| "totals (Total n # out) = n # totals out"
| "totals (l # out) = totals out"

subsection \<open>Notions of the specification\<close>

text \<open>
  A qualifying file: a regular file whose extension is in the allow-set and whose path
  has no component in the exclude-set.
\<close>

definition qualifying :: "entry \<Rightarrow> bool" where
  "qualifying e \<longleftrightarrow>
     is_file e
     \<and> path_suffix (parts e) \<in> EXTENSIONS
     \<and> (\<forall>c\<in>set (parts e). c \<notin> IGNORE_DIRS)"

text \<open>The record that the scan appends for an entry: \<open>(str(path), lines)\<close>.\<close>

definition file_record :: "entry \<Rightarrow> string \<times> int" where
  "file_record e = (py_str (parts e), count_lines (contents e))"

text \<open>The list \<open>files\<close> of \<open>main\<close> after \<open>files.sort\<close>.\<close>

definition sorted_files :: "entry list \<Rightarrow> (string \<times> int) list" where
  "sorted_files walk = sort_key (\<lambda>x. - snd x) (scan_loop [] walk)"

text \<open>The sum of the line counts of the records whose parent directory is \<open>d\<close>.\<close>

definition dir_sum :: "string \<Rightarrow> (string \<times> int) list \<Rightarrow> int" where
  "dir_sum d fs = sum_list (map snd (filter (\<lambda>f. dir_name (fst f) = d) fs))"

text \<open>
  A small tree for the concrete instances below: two files under the root, a file that
  does not qualify, a directory with a readable and an unreadable file, and a file deep
  inside \<open>node_modules\<close>.
\<close>

definition example_walk :: "entry list" where
  "example_walk =
     [\<lparr>parts = [''src''], is_file = False, contents = Inl OSError\<rparr>,
      \<lparr>parts = [''a.ts''], is_file = True, contents = Inr (''x'' @ [LF] @ ''y'' @ [LF])\<rparr>,
      \<lparr>parts = [''b.js''], is_file = True, contents = Inr (''x'' @ [LF])\<rparr>,
      \<lparr>parts = [''README.md''], is_file = True, contents = Inr (''x'' @ [LF])\<rparr>,
      \<lparr>parts = [''src'', ''c.js''], is_file = True, contents = Inr (''x'' @ [LF, LF, LF])\<rparr>,
      \<lparr>parts = [''src'', ''d.js''], is_file = True, contents = Inl PermissionError\<rparr>,
      \<lparr>parts = [''node_modules'', ''x'', ''y'', ''c.js''], is_file = True,
        contents = Inr (''x'' @ [LF])\<rparr>]"

section \<open>Auxiliary facts\<close>

subsection \<open>The scan and the report\<close>

lemma scan_loop_filter:
  "scan_loop files es = files @ map file_record (filter qualifying es)"
proof (induction es arbitrary: files)
  case Nil
  show ?case by simp
next
  case (Cons e es)
  have q: "qualifying e \<longleftrightarrow>
      (is_file e \<and> path_suffix (parts e) \<in> EXTENSIONS) \<and> \<not> (\<exists>d\<in>IGNORE_DIRS. d \<in> set (parts e))"
    unfolding qualifying_def by blast
  show ?case
    by (simp add: Cons.IH q file_record_def)
qed

lemma file_rows_append: "file_rows (xs @ ys) = file_rows xs @ file_rows ys"
  by (induction xs rule: file_rows.induct) simp_all

lemma dir_rows_append: "dir_rows (xs @ ys) = dir_rows xs @ dir_rows ys"
  by (induction xs rule: dir_rows.induct) simp_all

lemma totals_append: "totals (xs @ ys) = totals xs @ totals ys"
  by (induction xs rule: totals.induct) simp_all

lemma file_rows_File_row: "file_rows (map (\<lambda>(p, n). File_row n p) fs) = map (\<lambda>(p, n). (n, p)) fs"
  by (induction fs) auto

lemma file_rows_Dir_row: "file_rows (map (\<lambda>(d, t). Dir_row t d) ds) = []"
  by (induction ds) auto

lemma dir_rows_Dir_row: "dir_rows (map (\<lambda>(d, t). Dir_row t d) ds) = map (\<lambda>(d, t). (t, d)) ds"
  by (induction ds) auto

lemma dir_rows_File_row: "dir_rows (map (\<lambda>(p, n). File_row n p) fs) = []"
  by (induction fs) auto

lemma totals_File_row: "totals (map (\<lambda>(p, n). File_row n p) fs) = []"
  by (induction fs) auto

lemma totals_Dir_row: "totals (map (\<lambda>(d, t). Dir_row t d) ds) = []"
  by (induction ds) auto

lemma file_rows_main: "file_rows (main walk) = map (\<lambda>(p, n). (n, p)) (sorted_files walk)"
  by (simp add: main_def Let_def sorted_files_def file_rows_append file_rows_File_row file_rows_Dir_row)

lemma dir_rows_main:
  "dir_rows (main walk) =
     map (\<lambda>(d, t). (t, d)) (sort_key (\<lambda>x. - snd x) (dir_totals_loop [] (sorted_files walk)))"
  by (simp add: main_def Let_def sorted_files_def dir_rows_append dir_rows_File_row dir_rows_Dir_row)

lemma totals_main: "totals (main walk) = [sum_list (map snd (sorted_files walk))]"
  by (simp add: main_def Let_def sorted_files_def totals_append totals_File_row totals_Dir_row)

lemma map_of_dict_add:
  "map_of (dict_add m k v) = (map_of m)(k \<mapsto> (case map_of m k of None \<Rightarrow> 0 | Some t \<Rightarrow> t) + v)"
  by (induction m k v rule: dict_add.induct) (auto simp: fun_eq_iff)

lemma keys_dict_add: "fst ` set (dict_add m k v) = insert k (fst ` set m)"
  by (induction m k v rule: dict_add.induct) auto

lemma distinct_dict_add: "distinct (map fst m) \<Longrightarrow> distinct (map fst (dict_add m k v))"
proof (induction m k v rule: dict_add.induct)
  case (1 k v)
  show ?case by simp
next
  case (2 k' t rest k v)
  then show ?case
    using keys_dict_add [of rest k v] by (auto simp: image_iff)
qed

lemma sum_dict_add: "sum_list (map snd (dict_add m k v)) = sum_list (map snd m) + v"
  by (induction m k v rule: dict_add.induct) auto

lemma keys_dir_totals_loop:
  "fst ` set (dir_totals_loop m fs) = fst ` set m \<union> (dir_name \<circ> fst) ` set fs"
  by (induction m fs rule: dir_totals_loop.induct) (auto simp: keys_dict_add)

lemma distinct_dir_totals_loop:
  "distinct (map fst m) \<Longrightarrow> distinct (map fst (dir_totals_loop m fs))"
  by (induction m fs rule: dir_totals_loop.induct) (auto simp: distinct_dict_add)

lemma sum_dir_totals_loop:
  "sum_list (map snd (dir_totals_loop m fs)) = sum_list (map snd m) + sum_list (map snd fs)"
  by (induction m fs rule: dir_totals_loop.induct) (auto simp: sum_dict_add)

lemma map_of_dir_totals_loop:
  "map_of (dir_totals_loop m fs) d =
     (if d \<in> fst ` set m \<union> (dir_name \<circ> fst) ` set fs
      then Some ((case map_of m d of None \<Rightarrow> 0 | Some t \<Rightarrow> t) + dir_sum d fs)
      else None)"
proof (induction m fs rule: dir_totals_loop.induct)
  case (1 m)
  show ?case
    by (auto simp: dir_sum_def map_of_eq_None_iff split: option.splits)
next
  case (2 m path lines fs)
  show ?case
    unfolding dir_totals_loop.simps "2.IH"
    by (auto simp: keys_dict_add map_of_dict_add dir_sum_def split: option.splits)
qed

subsection \<open>Lines, suffixes and parents\<close>

lemma length_readlines:
  "(pendingcr \<longrightarrow> cur = []) \<Longrightarrow>
   length (readlines cur pendingcr s) =
     line_terminated_segments pendingcr s
     + (if (if s = [] then cur \<noteq> [] else last s \<noteq> LF \<and> last s \<noteq> CR) then 1 else 0)"
proof (induction s arbitrary: cur pendingcr)
  case Nil
  show ?case by simp
next
  case (Cons c cs)
  show ?case
  proof (cases "cs = []")
    case True
    with Cons.prems show ?thesis by auto
  next
    case False
    with Cons.prems show ?thesis by (simp add: Cons.IH)
  qed
qed

lemma count_lines_nonneg: "0 \<le> count_lines r"
  by (cases r) (simp_all add: count_lines_def count_lines_try_def)

lemma rfind_from_notin: "ch \<notin> set s \<Longrightarrow> rfind_from ch i found s = found"
  by (induction s arbitrary: i) auto

lemma rfind_from_append:
  "rfind_from ch i found (xs @ ys) =
     rfind_from ch (i + int (length xs)) (rfind_from ch i found xs) ys"
  by (induction xs arbitrary: i found) (auto simp: algebra_simps)

lemma rfind_last_dot:
  "ch \<notin> set ext \<Longrightarrow> rfind (stem @ ch # ext) ch = int (length stem)"
  by (simp add: rfind_def rfind_from_append rfind_from_notin)

lemma rfind_no_dot: "ch \<notin> set s \<Longrightarrow> rfind s ch = - 1"
  by (simp add: rfind_def rfind_from_notin)

lemma path_suffix_no_dot:
  "CHR ''.'' \<notin> set name \<Longrightarrow> path_suffix (ds @ [name]) = []"
  by (simp add: path_suffix_def path_name_def rfind_no_dot)

lemma path_suffix_leading_dot:
  "CHR ''.'' \<notin> set rest \<Longrightarrow> path_suffix (ds @ [CHR ''.'' # rest]) = []"
  using rfind_last_dot [of "CHR ''.''" rest "[]"]
  by (simp add: path_suffix_def path_name_def)

lemma path_suffix_last_dot:
  "stem \<noteq> [] \<Longrightarrow> CHR ''.'' \<notin> set ext \<Longrightarrow>
   path_suffix (ds @ [stem @ CHR ''.'' # ext]) = (if ext = [] then [] else CHR ''.'' # ext)"
  using rfind_last_dot [of "CHR ''.''" ext stem]
  by (simp add: path_suffix_def path_name_def Let_def)

lemma empty_notin_EXTENSIONS: "[] \<notin> EXTENSIONS"
  by (simp add: EXTENSIONS_def)

lemma split_from_no_sep: "sep \<notin> set s \<Longrightarrow> split_from sep cur s = [cur @ s]"
  by (induction s arbitrary: cur) auto

lemma dir_name_single: "CHR ''/'' \<notin> set name \<Longrightarrow> dir_name name = ''.''"
proof -
  assume a: "CHR ''/'' \<notin> set name"
  then have "splitroot name = ([], name)"
    by (cases name) (auto simp: splitroot_def)
  then have "comps (Path name) = filter (\<lambda>x. x \<noteq> [] \<and> x \<noteq> ''.'') [name]" and "root (Path name) = []"
    using a by (simp_all add: Path_def split_def split_from_no_sep)
  then show ?thesis
    by (simp add: dir_name_def parent_def str_path_def)
qed

lemma sum_list_sort_key:
  fixes g :: "'a \<Rightarrow> int"
  shows "sum_list (map g (sort_key f xs)) = sum_list (map g xs)"
proof -
  have "sum_mset (mset (map g (sort_key f xs))) = sum_mset (mset (map g xs))"
    by simp
  then show ?thesis
    by (simp only: sum_mset_sum_list)
qed

lemma dir_sum_mset:
  "mset fs = mset fs' \<Longrightarrow> dir_sum d fs = dir_sum d fs'"
proof -
  assume a: "mset fs = mset fs'"
  have "\<And>xs. dir_sum d xs = sum_mset (image_mset snd (filter_mset (\<lambda>f. dir_name (fst f) = d) (mset xs)))"
    unfolding dir_sum_def by (simp flip: sum_mset_sum_list)
  then show ?thesis using a by simp
qed

lemma dir_sum_append: "dir_sum d (xs @ ys) = dir_sum d xs + dir_sum d ys"
  by (simp add: dir_sum_def)

subsection \<open>The sorted tables\<close>

lemma swap_fst: "map fst (map (\<lambda>(p, n). (n, p)) xs) = map snd xs"
  by (induction xs) auto

lemma set_sorted_files: "set (sorted_files walk) = file_record ` {e \<in> set walk. qualifying e}"
  by (simp add: sorted_files_def scan_loop_filter)

lemma descending_rows:
  fixes xs :: "('a \<times> int) list"
  assumes "Suc i < length xs"
  shows "fst (map (\<lambda>(p, n). (n, p)) (sort_key (\<lambda>x. - snd x) xs) ! Suc i)
           \<le> fst (map (\<lambda>(p, n). (n, p)) (sort_key (\<lambda>x. - snd x) xs) ! i)"
proof -
  let ?ys = "sort_key (\<lambda>x. - snd x) xs"
  have len: "Suc i < length (map (\<lambda>x. - snd x) ?ys)"
    using assms by simp
  have "sorted (map (\<lambda>x. - snd x) ?ys)"
    by (rule sorted_sort_key)
  then have "map (\<lambda>x. - snd x) ?ys ! i \<le> map (\<lambda>x. - snd x) ?ys ! Suc i"
    using len by (simp only: sorted_iff_nth_Suc)
  then have "snd (?ys ! Suc i) \<le> snd (?ys ! i)"
    using assms by simp
  then show ?thesis
    using assms by (simp add: case_prod_unfold)
qed

lemma filter_swap:
  "filter (\<lambda>r. fst r = k) (map (\<lambda>(p, n). (n, p)) xs)
     = map (\<lambda>(p, n). (n, p)) (filter (\<lambda>f. snd f = k) xs)"
  by (induction xs) auto

lemma sort_key_neg_stable:
  fixes xs :: "('a \<times> int) list"
  shows "filter (\<lambda>f. snd f = k) (sort_key (\<lambda>x. - snd x) xs) = filter (\<lambda>f. snd f = k) xs"
  using sort_key_stable [of "\<lambda>x. - snd x" "- k" xs] by simp

lemma scan_loop_none: "\<forall>e\<in>set walk. \<not> qualifying e \<Longrightarrow> scan_loop [] walk = []"
  by (simp add: scan_loop_filter filter_empty_conv)

subsection \<open>The example tree\<close>

lemma main_example_walk:
  "main example_walk =
     [Banner, Files_title, Banner,
      File_row 3 ''src/c.js'', File_row 2 ''a.ts'', File_row 1 ''b.js'', File_row 0 ''src/d.js'',
      Newline_banner, Dirs_title, Banner,
      Dir_row 3 ''src'', Dir_row 3 ''.'',
      Total 6]"
  by code_simp

section \<open>The properties\<close>

text \<open>
  C2: every line count in the report is a non-negative integer, and the directory totals
  built from a list of records add up to the sum of the records' line counts; in the
  report the directory rows add up to the grand total printed, which is the sum of the
  file rows.
\<close>

theorem totals_agree:
  "(\<forall>r\<in>set (file_rows (main walk)). 0 \<le> fst r)
   \<and> sum_list (map snd (dir_totals_loop [] fs)) = sum_list (map snd fs)
   \<and> sum_list (map fst (dir_rows (main walk))) = sum_list (map fst (file_rows (main walk)))
   \<and> totals (main walk) = [sum_list (map fst (file_rows (main walk)))]"
proof -
  have "\<forall>r\<in>set (file_rows (main walk)). 0 \<le> fst r"
    by (auto simp: file_rows_main set_sorted_files file_record_def count_lines_nonneg)
  moreover have "sum_list (map snd (dir_totals_loop [] fs)) = sum_list (map snd fs)"
    by (simp add: sum_dir_totals_loop)
  moreover have "sum_list (map fst (dir_rows (main walk))) = sum_list (map fst (file_rows (main walk)))"
    by (simp only: dir_rows_main file_rows_main swap_fst sum_list_sort_key sum_dir_totals_loop)
      simp
  moreover have "totals (main walk) = [sum_list (map fst (file_rows (main walk)))]"
    by (simp only: totals_main file_rows_main swap_fst)
  ultimately show ?thesis by blast
qed

theorem totals_agree_witness:
  "(3, ''src/c.js'') \<in> set (file_rows (main example_walk))
   \<and> (0::int) \<le> fst (3::int, ''src/c.js'')
   \<and> sum_list (map fst (dir_rows (main example_walk))) = 6
   \<and> totals (main example_walk) = [6]"
  using totals_agree [of example_walk "[]"] by (simp add: main_example_walk)

text \<open>
  C1: an entry of the walk produces a record, and a row of the report, exactly when it is
  a regular file, its suffix is one of \<open>.svelte\<close>, \<open>.ts\<close>, \<open>.rs\<close>, \<open>.js\<close>, \<open>.css\<close>,
  \<open>.html\<close>, \<open>.json\<close>, and no component of its path, at any depth, is one of
  \<open>node_modules\<close>, \<open>target\<close>, \<open>dist\<close>, \<open>.svelte-kit\<close>, \<open>.git\<close>, \<open>build\<close>.
\<close>

theorem scan_keeps_qualifying:
  "(qualifying e \<longleftrightarrow>
      is_file e
      \<and> path_suffix (parts e) \<in> {''.svelte'', ''.ts'', ''.rs'', ''.js'', ''.css'', ''.html'', ''.json''}
      \<and> (\<forall>c\<in>set (parts e).
            c \<notin> {''node_modules'', ''target'', ''dist'', ''.svelte-kit'', ''.git'', ''build''}))
   \<and> scan_loop [] [e] = (if qualifying e then [file_record e] else [])
   \<and> scan_loop [] walk = map file_record (filter qualifying walk)
   \<and> mset (file_rows (main walk)) =
       mset (map (\<lambda>e. (count_lines (contents e), py_str (parts e))) (filter qualifying walk))"
proof -
  have "qualifying e \<longleftrightarrow>
      is_file e
      \<and> path_suffix (parts e) \<in> {''.svelte'', ''.ts'', ''.rs'', ''.js'', ''.css'', ''.html'', ''.json''}
      \<and> (\<forall>c\<in>set (parts e).
            c \<notin> {''node_modules'', ''target'', ''dist'', ''.svelte-kit'', ''.git'', ''build''})"
    unfolding qualifying_def EXTENSIONS_def IGNORE_DIRS_def by (rule refl)
  moreover have "scan_loop [] [e] = (if qualifying e then [file_record e] else [])"
    by (simp add: scan_loop_filter)
  moreover have "scan_loop [] walk = map file_record (filter qualifying walk)"
    by (simp add: scan_loop_filter)
  moreover have "mset (file_rows (main walk)) =
       mset (map (\<lambda>e. (count_lines (contents e), py_str (parts e))) (filter qualifying walk))"
    by (simp add: file_rows_main sorted_files_def scan_loop_filter file_record_def
        multiset.map_comp comp_def)
  ultimately show ?thesis by blast
qed

theorem scan_keeps_qualifying_witness:
  "scan_loop []
     [\<lparr>parts = [''node_modules'', ''x'', ''y'', ''c.js''], is_file = True,
        contents = Inr (''x'' @ [LF])\<rparr>] = []
   \<and> scan_loop [] [\<lparr>parts = [''src'', ''c.js''], is_file = True, contents = Inr (''x'' @ [LF])\<rparr>]
       = [(''src/c.js'', 1)]
   \<and> scan_loop [] [\<lparr>parts = [''src'', ''c.js''], is_file = False, contents = Inl OSError\<rparr>] = []
   \<and> scan_loop [] [\<lparr>parts = [''README.md''], is_file = True, contents = Inr (''x'' @ [LF])\<rparr>] = []"
proof -
  let ?a = "\<lparr>parts = [''node_modules'', ''x'', ''y'', ''c.js''], is_file = True,
        contents = Inr (''x'' @ [LF])\<rparr>"
  let ?b = "\<lparr>parts = [''src'', ''c.js''], is_file = True, contents = Inr (''x'' @ [LF])\<rparr>"
  let ?c = "\<lparr>parts = [''src'', ''c.js''], is_file = False, contents = Inl OSError\<rparr>"
  let ?d = "\<lparr>parts = [''README.md''], is_file = True, contents = Inr (''x'' @ [LF])\<rparr>"
  have a: "\<not> qualifying ?a" by code_simp
  have b: "qualifying ?b" by code_simp
  have c: "\<not> qualifying ?c" by code_simp
  have d: "\<not> qualifying ?d" by code_simp
  have r: "file_record ?b = (''src/c.js'', 1)" by code_simp
  show ?thesis
    using scan_keeps_qualifying [of ?a "[]"] scan_keeps_qualifying [of ?b "[]"]
      scan_keeps_qualifying [of ?c "[]"] scan_keeps_qualifying [of ?d "[]"] a b c d r
    by simp
qed

text \<open>
  C3, as the code has it: for a file that can be read, \<open>count_lines\<close> returns the number of
  line-terminated segments of its text, plus one when the text does not end in a line
  terminator and is not empty: the last, unterminated segment is a line as well.
\<close>

theorem count_lines_segments:
  "count_lines (Inr s) =
     int (line_terminated_segments False s)
     + (if s \<noteq> [] \<and> last s \<noteq> LF \<and> last s \<noteq> CR then 1 else 0)"
  by (simp add: count_lines_def count_lines_try_def length_readlines)

theorem count_lines_segments_witness:
  "count_lines (Inr (''ab'' @ [LF] @ ''c'' @ [CR, LF] @ ''d'')) = 3
   \<and> line_terminated_segments False (''ab'' @ [LF] @ ''c'' @ [CR, LF] @ ''d'') = 2
   \<and> count_lines (Inr (''ab'' @ [LF] @ ''c'' @ [CR, LF])) = 2"
proof -
  have "line_terminated_segments False (''ab'' @ [LF] @ ''c'' @ [CR, LF] @ ''d'') = 2"
    by code_simp
  moreover have "line_terminated_segments False (''ab'' @ [LF] @ ''c'' @ [CR, LF]) = 2"
    by code_simp
  moreover have "last (''ab'' @ [LF] @ ''c'' @ [CR, LF] @ ''d'') = CHR ''d''" by simp
  moreover have "CHR ''d'' \<noteq> LF" "CHR ''d'' \<noteq> CR" by (simp_all add: LF_def CR_def)
  ultimately show ?thesis
    using count_lines_segments [of "''ab'' @ [LF] @ ''c'' @ [CR, LF] @ ''d''"]
      count_lines_segments [of "''ab'' @ [LF] @ ''c'' @ [CR, LF]"]
    by simp
qed

theorem count_lines_unterminated_counterexample:
  "count_lines (Inr ''abc'') = 1
   \<and> line_terminated_segments False ''abc'' = 0
   \<and> count_lines (Inr ''abc'') \<noteq> int (line_terminated_segments False ''abc'')"
  by code_simp

text \<open>
  C4: \<open>count_lines\<close> never raises: when opening or reading raises, it returns 0; a
  qualifying file that cannot be read is recorded with the count 0 and reported with it,
  and the entries after it are scanned as they would be without it.
\<close>

theorem count_lines_swallows_errors:
  "(count_lines_try r = Inl err \<longrightarrow> count_lines r = 0)
   \<and> count_lines (Inl err) = 0
   \<and> (qualifying e \<and> contents e = Inl err \<longrightarrow>
        scan_loop [] (es1 @ e # es2)
          = scan_loop [] es1 @ (py_str (parts e), 0) # scan_loop [] es2
        \<and> (0, py_str (parts e)) \<in> set (file_rows (main (es1 @ e # es2))))"
proof -
  have 1: "count_lines_try r = Inl err \<longrightarrow> count_lines r = 0"
    by (simp add: count_lines_def)
  have 2: "count_lines (Inl err) = 0"
    by (simp add: count_lines_def count_lines_try_def)
  have 3: "scan_loop [] (es1 @ e # es2)
          = scan_loop [] es1 @ (py_str (parts e), 0) # scan_loop [] es2"
    if "qualifying e" "contents e = Inl err"
    using that 2 by (simp add: scan_loop_filter file_record_def)
  have 4: "(0, py_str (parts e)) \<in> set (file_rows (main (es1 @ e # es2)))"
    if "qualifying e" "contents e = Inl err"
    using that 2 by (force simp: file_rows_main set_sorted_files file_record_def image_iff)
  from 1 2 3 4 show ?thesis by blast
qed

theorem count_lines_swallows_errors_witness:
  "count_lines_try (Inl PermissionError) = Inl PermissionError
   \<and> count_lines (Inl PermissionError) = 0
   \<and> scan_loop []
        ([\<lparr>parts = [''a.ts''], is_file = True, contents = Inr (''x'' @ [LF])\<rparr>]
         @ \<lparr>parts = [''src'', ''d.js''], is_file = True, contents = Inl PermissionError\<rparr>
         # [\<lparr>parts = [''b.js''], is_file = True, contents = Inr (''x'' @ [LF])\<rparr>])
      = [(''a.ts'', 1), (''src/d.js'', 0), (''b.js'', 1)]"
proof -
  let ?e = "\<lparr>parts = [''src'', ''d.js''], is_file = True, contents = Inl PermissionError\<rparr>"
  let ?a = "\<lparr>parts = [''a.ts''], is_file = True, contents = Inr (''x'' @ [LF])\<rparr>"
  let ?b = "\<lparr>parts = [''b.js''], is_file = True, contents = Inr (''x'' @ [LF])\<rparr>"
  have q: "qualifying ?e" by code_simp
  have t: "count_lines_try (Inl PermissionError) = Inl PermissionError" by code_simp
  have a: "scan_loop [] [?a] = [(''a.ts'', 1)]" by code_simp
  have b: "scan_loop [] [?b] = [(''b.js'', 1)]" by code_simp
  have p: "py_str (parts ?e) = ''src/d.js''" by code_simp
  show ?thesis
    using count_lines_swallows_errors [of "Inl PermissionError" PermissionError ?e "[?a]" "[?b]"]
      q t a b p
    by simp
qed

text \<open>
  C5: in the report the count of a file row is at least the count of the row after it;
  the rows with one and the same count stand in the order in which the scan found their
  files (the sort is stable); and the total of a directory row is at least the total of
  the row after it.
\<close>

theorem rows_sorted_descending:
  "(\<forall>i. Suc i < length (file_rows (main walk)) \<longrightarrow>
        fst (file_rows (main walk) ! Suc i) \<le> fst (file_rows (main walk) ! i))
   \<and> (\<forall>k. filter (\<lambda>r. fst r = k) (file_rows (main walk))
            = map (\<lambda>(p, n). (n, p)) (filter (\<lambda>f. snd f = k) (scan_loop [] walk)))
   \<and> (\<forall>i. Suc i < length (dir_rows (main walk)) \<longrightarrow>
        fst (dir_rows (main walk) ! Suc i) \<le> fst (dir_rows (main walk) ! i))"
proof -
  have 1: "fst (file_rows (main walk) ! Suc i) \<le> fst (file_rows (main walk) ! i)"
    if "Suc i < length (file_rows (main walk))" for i
    using that descending_rows [of i "scan_loop [] walk"]
    by (simp add: file_rows_main sorted_files_def)
  have 2: "filter (\<lambda>r. fst r = k) (file_rows (main walk))
            = map (\<lambda>(p, n). (n, p)) (filter (\<lambda>f. snd f = k) (scan_loop [] walk))" for k
    by (simp only: file_rows_main sorted_files_def filter_swap sort_key_neg_stable)
  have 3: "fst (dir_rows (main walk) ! Suc i) \<le> fst (dir_rows (main walk) ! i)"
    if "Suc i < length (dir_rows (main walk))" for i
    using that descending_rows [of i "dir_totals_loop [] (sorted_files walk)"]
    by (simp add: dir_rows_main)
  from 1 2 3 show ?thesis by blast
qed

theorem rows_sorted_descending_witness:
  "Suc 0 < length (file_rows (main example_walk))
   \<and> fst (file_rows (main example_walk) ! Suc 0) \<le> fst (file_rows (main example_walk) ! 0)
   \<and> file_rows (main example_walk) = [(3, ''src/c.js''), (2, ''a.ts''), (1, ''b.js''), (0, ''src/d.js'')]
   \<and> Suc 0 < length (dir_rows (main example_walk))
   \<and> fst (dir_rows (main example_walk) ! Suc 0) \<le> fst (dir_rows (main example_walk) ! 0)
   \<and> dir_rows (main example_walk) = [(3, ''src''), (3, ''.'')]"
  using rows_sorted_descending [of example_walk] by (simp add: main_example_walk)

text \<open>
  C6: a file directly under the scan root (its path is its name alone) has the parent
  directory \<open>.\<close>, and the directory totals give the key \<open>.\<close> the file's line count on top
  of the counts of the other records whose parent is \<open>.\<close>.
\<close>

theorem root_file_parent_dot:
  assumes "parts e = [name]" and "CHR ''/'' \<notin> set name"
  shows "dir_name (fst (file_record e)) = ''.''
    \<and> map_of (dir_totals_loop [] (fs1 @ file_record e # fs2)) ''.''
        = Some (dir_sum ''.'' (fs1 @ fs2) + count_lines (contents e))"
proof -
  have p: "fst (file_record e) = name"
    using assms(1) by (simp add: file_record_def py_str_def)
  have d: "dir_name (fst (file_record e)) = ''.''"
    using assms(2) p by (simp add: dir_name_single)
  have "dir_sum ''.'' [file_record e] = count_lines (contents e)"
    using d by (simp add: dir_sum_def file_record_def)
  then have "dir_sum ''.'' (fs1 @ file_record e # fs2)
      = dir_sum ''.'' (fs1 @ fs2) + count_lines (contents e)"
    using dir_sum_append [of "''.''" fs1 "[file_record e] @ fs2"]
      dir_sum_append [of "''.''" "[file_record e]" fs2] dir_sum_append [of "''.''" fs1 fs2]
    by simp
  moreover have "''.'' \<in> (dir_name \<circ> fst) ` set (fs1 @ file_record e # fs2)"
    using d by (simp add: image_iff)
  ultimately have "map_of (dir_totals_loop [] (fs1 @ file_record e # fs2)) ''.''
        = Some (dir_sum ''.'' (fs1 @ fs2) + count_lines (contents e))"
    by (simp only: map_of_dir_totals_loop) simp
  with d show ?thesis by blast
qed

theorem root_file_parent_dot_witness:
  "parts \<lparr>parts = [''a.ts''], is_file = True, contents = Inr (''x'' @ [LF] @ ''y'' @ [LF])\<rparr> = [''a.ts'']
   \<and> CHR ''/'' \<notin> set ''a.ts''
   \<and> map_of (dir_totals_loop [] [(''src/c.js'', 3), (''a.ts'', 2), (''b.js'', 1)]) ''.'' = Some 3"
proof -
  let ?e = "\<lparr>parts = [''a.ts''], is_file = True, contents = Inr (''x'' @ [LF] @ ''y'' @ [LF])\<rparr>"
  have h1: "parts ?e = [''a.ts'']" by simp
  have h2: "CHR ''/'' \<notin> set ''a.ts''" by simp
  have r: "file_record ?e = (''a.ts'', 2)" by code_simp
  have s: "dir_sum ''.'' ([(''src/c.js'', 3)] @ [(''b.js'', 1)]) = 1" by code_simp
  have c: "count_lines (contents ?e) = 2" by code_simp
  have "map_of (dir_totals_loop [] ([(''src/c.js'', 3)] @ file_record ?e # [(''b.js'', 1)])) ''.''
      = Some (dir_sum ''.'' ([(''src/c.js'', 3)] @ [(''b.js'', 1)]) + count_lines (contents ?e))"
    using root_file_parent_dot [OF h1 h2, of "[(''src/c.js'', 3)]" "[(''b.js'', 1)]"]
    by (rule conjunct2)
  then have "map_of (dir_totals_loop [] ([(''src/c.js'', 3)] @ (''a.ts'', 2) # [(''b.js'', 1)])) ''.''
      = Some (1 + 2)"
    by (simp only: r s c)
  then show ?thesis
    using h2 by (simp del: dir_totals_loop.simps)
qed

text \<open>
  C7: the directory totals do not depend on the order of the records: two lists with the
  same records, in any order, give the same total for every key, and each key occurs
  once in the totals.
\<close>

theorem dir_totals_order_insensitive:
  assumes "mset fs' = mset fs"
  shows "map_of (dir_totals_loop [] fs') = map_of (dir_totals_loop [] fs)
    \<and> distinct (map fst (dir_totals_loop [] fs))
    \<and> distinct (map fst (dir_totals_loop [] fs'))"
proof -
  have "set fs' = set fs"
    using assms by (rule mset_eq_setD)
  then have "map_of (dir_totals_loop [] fs') d = map_of (dir_totals_loop [] fs) d" for d
    using dir_sum_mset [OF assms, of d] by (simp only: map_of_dir_totals_loop)
  then have "map_of (dir_totals_loop [] fs') = map_of (dir_totals_loop [] fs)"
    by (rule ext)
  moreover have "distinct (map fst (dir_totals_loop [] xs))" for xs
    by (rule distinct_dir_totals_loop) simp
  ultimately show ?thesis by blast
qed

theorem dir_totals_order_insensitive_witness:
  "mset [(''b.js'', 1), (''src/c.js'', 3), (''a.ts'', 2)] = mset [(''src/c.js'', 3::int), (''a.ts'', 2), (''b.js'', 1)]
   \<and> map_of (dir_totals_loop [] [(''b.js'', 1), (''src/c.js'', 3), (''a.ts'', 2)])
       = map_of (dir_totals_loop [] [(''src/c.js'', 3), (''a.ts'', 2), (''b.js'', 1)])
   \<and> dir_totals_loop [] [(''b.js'', 1), (''src/c.js'', 3), (''a.ts'', 2)] = [(''.'', 3), (''src'', 3)]
   \<and> dir_totals_loop [] [(''src/c.js'', 3), (''a.ts'', 2), (''b.js'', 1)] = [(''src'', 3), (''.'', 3)]"
proof -
  have h: "mset [(''b.js'', 1), (''src/c.js'', 3), (''a.ts'', 2)]
      = mset [(''src/c.js'', 3::int), (''a.ts'', 2), (''b.js'', 1)]"
    by (simp add: add_mset_commute)
  have a: "dir_totals_loop [] [(''b.js'', 1), (''src/c.js'', 3), (''a.ts'', 2)] = [(''.'', 3), (''src'', 3)]"
    by code_simp
  have b: "dir_totals_loop [] [(''src/c.js'', 3), (''a.ts'', 2), (''b.js'', 1)] = [(''src'', 3), (''.'', 3)]"
    by code_simp
  from dir_totals_order_insensitive [OF h] h a b show ?thesis by blast
qed

text \<open>
  C8: when no entry of the walk qualifies, the report is printed all the same: the two
  headers with no file row and no directory row, and the grand total 0.
\<close>

theorem empty_scan_report:
  assumes "\<forall>e\<in>set walk. \<not> qualifying e"
  shows "main walk = [Banner, Files_title, Banner, Newline_banner, Dirs_title, Banner, Total 0]
    \<and> file_rows (main walk) = []
    \<and> dir_rows (main walk) = []
    \<and> totals (main walk) = [0]"
proof -
  have "scan_loop [] walk = []"
    using assms by (rule scan_loop_none)
  then have "main walk = [Banner, Files_title, Banner, Newline_banner, Dirs_title, Banner, Total 0]"
    by (simp add: main_def)
  then show ?thesis by simp
qed

theorem empty_scan_report_witness:
  "\<not> qualifying \<lparr>parts = [''README.md''], is_file = True, contents = Inr (''x'' @ [LF])\<rparr>
   \<and> \<not> qualifying \<lparr>parts = [''src''], is_file = False, contents = Inl OSError\<rparr>
   \<and> main [\<lparr>parts = [''README.md''], is_file = True, contents = Inr (''x'' @ [LF])\<rparr>,
           \<lparr>parts = [''src''], is_file = False, contents = Inl OSError\<rparr>]
       = [Banner, Files_title, Banner, Newline_banner, Dirs_title, Banner, Total 0]
   \<and> main [] = [Banner, Files_title, Banner, Newline_banner, Dirs_title, Banner, Total 0]"
proof -
  let ?a = "\<lparr>parts = [''README.md''], is_file = True, contents = Inr (''x'' @ [LF])\<rparr>"
  let ?b = "\<lparr>parts = [''src''], is_file = False, contents = Inl OSError\<rparr>"
  have a: "\<not> qualifying ?a" by code_simp
  have b: "\<not> qualifying ?b" by code_simp
  have h: "\<forall>e\<in>set [?a, ?b]. \<not> qualifying e"
    using a b by simp
  have h0: "\<forall>e\<in>set ([] :: entry list). \<not> qualifying e"
    by simp
  from empty_scan_report [OF h] empty_scan_report [OF h0] a b show ?thesis by blast
qed

text \<open>
  C9: the suffix that is filtered on is what follows the last dot of the file name, dot
  included: \<open>app.test.ts\<close> qualifies by its suffix \<open>.ts\<close>, \<open>app.ts.bak\<close> has the suffix
  \<open>.bak\<close> and does not qualify, and a name with no dot, or with a leading dot as its
  only dot, has the empty suffix and never qualifies.
\<close>

theorem suffix_is_final_dot_suffix:
  assumes "parts e = ds @ [name]"
  shows "(CHR ''.'' \<notin> set name \<longrightarrow> path_suffix (parts e) = [] \<and> \<not> qualifying e)
    \<and> (\<forall>rest. name = CHR ''.'' # rest \<and> CHR ''.'' \<notin> set rest \<longrightarrow>
          path_suffix (parts e) = [] \<and> \<not> qualifying e)
    \<and> (\<forall>stem ext. name = stem @ CHR ''.'' # ext \<and> stem \<noteq> [] \<and> ext \<noteq> [] \<and> CHR ''.'' \<notin> set ext \<longrightarrow>
          path_suffix (parts e) = CHR ''.'' # ext)
    \<and> path_suffix (ds @ [''app.test.ts'']) = ''.ts'' \<and> ''.ts'' \<in> EXTENSIONS
    \<and> path_suffix (ds @ [''app.ts.bak'']) = ''.bak'' \<and> ''.bak'' \<notin> EXTENSIONS
    \<and> path_suffix (ds @ [''.ts'']) = [] \<and> [] \<notin> EXTENSIONS"
proof -
  have nq: "\<not> qualifying e" if "path_suffix (parts e) = []"
    using that empty_notin_EXTENSIONS by (simp add: qualifying_def)
  have 1: "path_suffix (parts e) = [] \<and> \<not> qualifying e" if "CHR ''.'' \<notin> set name"
    using that nq assms by (simp add: path_suffix_no_dot)
  have 2: "path_suffix (parts e) = [] \<and> \<not> qualifying e"
    if "name = CHR ''.'' # rest \<and> CHR ''.'' \<notin> set rest" for rest
    using that nq assms by (simp add: path_suffix_leading_dot)
  have 3: "path_suffix (parts e) = CHR ''.'' # ext"
    if "name = stem @ CHR ''.'' # ext \<and> stem \<noteq> [] \<and> ext \<noteq> [] \<and> CHR ''.'' \<notin> set ext" for stem ext
    using that assms by (simp add: path_suffix_last_dot)
  have 4: "path_suffix (ds @ [''app.test.ts'']) = ''.ts''"
    using path_suffix_last_dot [of "''app.test''" "''ts''" ds] by simp
  have 5: "path_suffix (ds @ [''app.ts.bak'']) = ''.bak''"
    using path_suffix_last_dot [of "''app.ts''" "''bak''" ds] by simp
  have 6: "path_suffix (ds @ [''.ts'']) = []"
    using path_suffix_leading_dot [of "''ts''" ds] by simp
  have 7: "''.ts'' \<in> EXTENSIONS" "''.bak'' \<notin> EXTENSIONS"
    by (simp_all add: EXTENSIONS_def)
  from 1 2 3 4 5 6 7 empty_notin_EXTENSIONS show ?thesis by blast
qed

theorem suffix_is_final_dot_suffix_witness:
  "path_suffix [''src'', ''Makefile''] = []
   \<and> \<not> qualifying \<lparr>parts = [''src'', ''Makefile''], is_file = True, contents = Inr []\<rparr>
   \<and> path_suffix [''src'', ''.json''] = []
   \<and> \<not> qualifying \<lparr>parts = [''src'', ''.json''], is_file = True, contents = Inr []\<rparr>
   \<and> path_suffix [''src'', ''vite.config.js''] = ''.js''
   \<and> qualifying \<lparr>parts = [''src'', ''vite.config.js''], is_file = True, contents = Inr []\<rparr>"
proof -
  let ?a = "\<lparr>parts = [''src'', ''Makefile''], is_file = True, contents = Inr []\<rparr>"
  let ?b = "\<lparr>parts = [''src'', ''.json''], is_file = True, contents = Inr []\<rparr>"
  let ?c = "\<lparr>parts = [''src'', ''vite.config.js''], is_file = True, contents = Inr []\<rparr>"
  have a: "path_suffix (parts ?a) = [] \<and> \<not> qualifying ?a"
    using suffix_is_final_dot_suffix [of ?a "[''src'']" "''Makefile''"] by simp
  have b: "path_suffix (parts ?b) = [] \<and> \<not> qualifying ?b"
    using suffix_is_final_dot_suffix [of ?b "[''src'']" "''.json''"] by simp
  have "''vite.config.js'' = ''vite.config'' @ CHR ''.'' # ''js'' \<and> ''vite.config'' \<noteq> []
      \<and> ''js'' \<noteq> [] \<and> CHR ''.'' \<notin> set ''js''"
    by simp
  moreover have "parts ?c = [''src''] @ [''vite.config.js'']"
    by simp
  ultimately have c: "path_suffix (parts ?c) = CHR ''.'' # ''js''"
    using suffix_is_final_dot_suffix [of ?c "[''src'']" "''vite.config.js''"] by blast
  have q: "qualifying ?c" by code_simp
  from a b c q show ?thesis by simp
qed

text \<open>
  C10: every key of the directory totals is the parent directory of a record, so every
  directory row of the report is the parent directory of a file row of the report.
\<close>

theorem dir_rows_have_files:
  "fst ` set (dir_totals_loop [] fs) = (\<lambda>f. dir_name (fst f)) ` set fs
   \<and> (\<forall>r\<in>set (dir_rows (main walk)).
         \<exists>q\<in>set (file_rows (main walk)). dir_name (snd q) = snd r)"
proof -
  have 1: "fst ` set (dir_totals_loop [] fs) = (\<lambda>f. dir_name (fst f)) ` set fs" for fs
    by (simp add: keys_dir_totals_loop comp_def)
  have "\<exists>q\<in>set (file_rows (main walk)). dir_name (snd q) = snd r"
    if "r \<in> set (dir_rows (main walk))" for r
  proof -
    from that have "snd r \<in> fst ` set (dir_totals_loop [] (sorted_files walk))"
      by (force simp: dir_rows_main case_prod_unfold)
    then obtain f where f: "f \<in> set (sorted_files walk)" "dir_name (fst f) = snd r"
      unfolding 1 by auto
    then have "(snd f, fst f) \<in> set (file_rows (main walk))"
      by (simp add: file_rows_main case_prod_unfold)
    with f(2) show ?thesis by force
  qed
  with 1 show ?thesis by blast
qed

theorem dir_rows_have_files_witness:
  "(3, ''src'') \<in> set (dir_rows (main example_walk))
   \<and> (3, ''src/c.js'') \<in> set (file_rows (main example_walk))
   \<and> dir_name ''src/c.js'' = ''src''
   \<and> (\<exists>q\<in>set (file_rows (main example_walk)). dir_name (snd q) = ''src'')
   \<and> fst ` set (dir_totals_loop [] [(''src/c.js'', 3), (''a.ts'', 2)]) = {''src'', ''.''}"
proof -
  have m: "(3, ''src'') \<in> set (dir_rows (main example_walk))"
    by (simp add: main_example_walk)
  have f: "(3, ''src/c.js'') \<in> set (file_rows (main example_walk))"
    by (simp add: main_example_walk)
  have d: "dir_name ''src/c.js'' = ''src''" "dir_name ''a.ts'' = ''.''"
    by code_simp+
  have "\<exists>q\<in>set (file_rows (main example_walk)). dir_name (snd q) = snd (3::int, ''src'')"
    using dir_rows_have_files [of "[]" example_walk] m by blast
  moreover have "fst ` set (dir_totals_loop [] [(''src/c.js'', 3), (''a.ts'', 2)]) = {''src'', ''.''}"
    using dir_rows_have_files [of "[(''src/c.js'', 3), (''a.ts'', 2)]" example_walk] d
    by (simp del: dir_totals_loop.simps)
  ultimately show ?thesis using m f d by simp
qed

end
